theory Spec2Isabelle
  imports Main "HOL-Library.Multiset" "HOL-Library.AList"
begin

section \<open>Python values and exceptions\<close>

text \<open>
  The three scripts of the repository talk to a cloud provider through boto3 clients.
  A client is modelled as a record of functions, one per API operation the scripts call;
  an operation that raises returns \<open>Inl\<close> of the exception. Python values that cross the
  boundary of a script (the Lambda event, the value a handler returns) are \<open>pyval\<close>s.
\<close>

datatype pyval =
    PNone
  | PStr string
  | PInt int
  | PList "pyval list"
  | PDict "(string \<times> pyval) list"

datatype error =
    KeyError string
  | ValueError string
  | ClientError string
  | Exception string

section \<open>thread-test/s3\_threaded\_delete.py\<close>

subsection \<open>The S3 client and the event\<close>

text \<open>
  \<open>list_objects_v2\<close> takes the bucket, the prefix and the optional continuation token;
  its response carries the keys of the \<open>Contents\<close> entry (absent from the response when
  no object matches) and the continuation token of a truncated listing.
  \<open>delete_object\<close> returns \<open>None\<close> when the call returns and \<open>Some e\<close> when it raises \<open>e\<close>.
  The outcome of a call is a function of its arguments.
\<close>

record response =
  Contents :: "string list option"
  IsTruncated :: bool
  NextContinuationToken :: "string option"

record s3client =
  list_objects_v2 :: "pyval \<Rightarrow> pyval \<Rightarrow> string option \<Rightarrow> error + response"
  delete_object :: "pyval \<Rightarrow> string \<Rightarrow> error option"

type_synonym event = "string \<rightharpoonup> pyval"

text \<open>A task is the tuple \<open>(bucket, key)\<close> the handler puts on the queue.\<close>

type_synonym task = "pyval \<times> string"

subsection \<open>Threads\<close>

text \<open>
  A \<open>DeleteWorker\<close> is at one of these points of \<open>run\<close>:
  \<^item> \<open>Waiting\<close>: at \<open>self.queue.get()\<close>, which blocks while the queue is empty;
  \<^item> \<open>Claimed t\<close>: \<open>get\<close> has returned \<open>t\<close>, \<open>delete_object\<close> is about to be called;
  \<^item> \<open>Deleted t\<close>: \<open>delete_object\<close> has returned, the \<open>finally\<close> clause is pending;
  \<^item> \<open>Failed t e\<close>: \<open>delete_object\<close> has raised \<open>e\<close>, the \<open>finally\<close> clause is pending;
  \<^item> \<open>Dead e\<close>: \<open>e\<close> has left \<open>run\<close> and the thread has ended.
\<close>

datatype worker =
    Waiting
  | Claimed task
  | Deleted task
  | Failed task error
  | Dead error

text \<open>
  The main thread runs \<open>handler\<close>:
  \<^item> \<open>Listing\<close>: before the call of \<open>list_objects_v2\<close>;
  \<^item> \<open>Spawning x\<close>: in \<open>for x in range(8)\<close>, \<open>x\<close> workers started;
  \<^item> \<open>Enqueueing\<close>: in \<open>for obj in response['Contents']\<close>;
  \<^item> \<open>Joining\<close>: in \<open>queue.join()\<close>;
  \<^item> \<open>Returned v\<close>: \<open>handler\<close> has returned \<open>v\<close>;
  \<^item> \<open>Raised e\<close>: \<open>e\<close> has left \<open>handler\<close>.
\<close>

datatype mainpc =
    Listing
  | Spawning nat
  | Enqueueing
  | Joining
  | Returned pyval
  | Raised error

text \<open>
  The state holds the handler's local variables (\<open>resp\<close>, the rest of the second loop
  in \<open>pending\<close>), the \<open>Queue\<close> object (its deque and its \<open>unfinished_tasks\<close> counter), the
  worker threads in the order they were started, and a log of the events of the run:
  the continuation tokens of the listing calls made, the tasks put, the tasks got (with
  the index of the worker) and the calls of \<open>task_done\<close> (with the index of the worker,
  the task, and whether its \<open>delete_object\<close> had returned).
\<close>

record state =
  mainpc :: mainpc
  resp :: "response option"
  pending :: "string list"
  queue :: "task list"
  unfinished_tasks :: nat
  workers :: "worker list"
  list_calls :: "string option list"
  puts :: "task list"
  gets :: "(nat \<times> task) list"
  dones :: "(nat \<times> task \<times> bool) list"

definition init :: state where
  "init = \<lparr> mainpc = Listing, resp = None, pending = [], queue = [],
             unfinished_tasks = 0, workers = [], list_calls = [], puts = [],
             gets = [], dones = [] \<rparr>"

subsection \<open>The queue\<close>

text \<open>
  \<open>Queue.put\<close> appends the item and counts it as unfinished. \<open>Queue.get\<close> takes the
  item at the head and blocks (\<open>None\<close>) on an empty queue. \<open>Queue.task_done\<close> raises
  \<open>ValueError\<close> when no task is unfinished and decrements the counter otherwise.
  \<open>Queue.join\<close> blocks until the counter is zero.
\<close>

definition put :: "task \<Rightarrow> state \<Rightarrow> state" where
  "put t s = s\<lparr> queue := queue s @ [t], unfinished_tasks := unfinished_tasks s + 1,
               puts := puts s @ [t] \<rparr>"

definition task_done :: "state \<Rightarrow> error + state" where
  "task_done s =
     (if unfinished_tasks s = 0 then Inl (ValueError ''task_done() called too many times'')
      else Inr (s\<lparr> unfinished_tasks := unfinished_tasks s - 1 \<rparr>))"

subsection \<open>DeleteWorker.run\<close>

text \<open>
  One step of worker \<open>i\<close>. The \<open>finally\<close> clause runs \<open>task_done\<close> after
  \<open>delete_object\<close> whether it returned or raised; there is no \<open>except\<close> clause, so after
  the \<open>finally\<close> clause a raised exception leaves the loop and \<open>run\<close>. An exception of
  \<open>task_done\<close> itself leaves \<open>run\<close> in the same way.
\<close>

definition DeleteWorker_run_step :: "s3client \<Rightarrow> nat \<Rightarrow> state \<Rightarrow> state option" where
  "DeleteWorker_run_step c i s =
     (if i < length (workers s) then
        (case workers s ! i of
           Waiting \<Rightarrow>
             (case queue s of
                [] \<Rightarrow> None
              | t # q \<Rightarrow> Some (s\<lparr> queue := q, workers := (workers s)[i := Claimed t],
                                  gets := gets s @ [(i, t)] \<rparr>))
         | Claimed t \<Rightarrow>
             (case delete_object c (fst t) (snd t) of
                None \<Rightarrow> Some (s\<lparr> workers := (workers s)[i := Deleted t] \<rparr>)
              | Some e \<Rightarrow> Some (s\<lparr> workers := (workers s)[i := Failed t e] \<rparr>))
         | Deleted t \<Rightarrow>
             (case task_done s of
                Inl e' \<Rightarrow> Some (s\<lparr> workers := (workers s)[i := Dead e'] \<rparr>)
              | Inr s' \<Rightarrow> Some (s'\<lparr> workers := (workers s)[i := Waiting],
                                    dones := dones s @ [(i, t, True)] \<rparr>))
         | Failed t e \<Rightarrow>
             (case task_done s of
                Inl e' \<Rightarrow> Some (s\<lparr> workers := (workers s)[i := Dead e'] \<rparr>)
              | Inr s' \<Rightarrow> Some (s'\<lparr> workers := (workers s)[i := Dead e],
                                    dones := dones s @ [(i, t, False)] \<rparr>))
         | Dead e \<Rightarrow> None)
      else None)"

subsection \<open>handler\<close>

text \<open>
  One step of the main thread. The listing call evaluates \<open>event['Bucket']\<close> and
  \<open>event['Prefix']\<close> (a missing key raises \<open>KeyError\<close>) and passes no continuation
  token. The first loop starts eight workers. The second loop reads
  \<open>response['Contents']\<close> (a \<open>KeyError\<close> when the entry is absent) and puts one task per
  object. \<open>queue.join()\<close> blocks while a task is unfinished. The function has no
  \<open>return\<close> statement: it returns \<open>None\<close>.
\<close>

definition handler_step :: "s3client \<Rightarrow> event \<Rightarrow> state \<Rightarrow> state option" where
  "handler_step c ev s =
     (case mainpc s of
        Listing \<Rightarrow>
          (case ev ''Bucket'' of
             None \<Rightarrow> Some (s\<lparr> mainpc := Raised (KeyError ''Bucket'') \<rparr>)
           | Some b \<Rightarrow>
               (case ev ''Prefix'' of
                  None \<Rightarrow> Some (s\<lparr> mainpc := Raised (KeyError ''Prefix'') \<rparr>)
                | Some p \<Rightarrow>
                    (case list_objects_v2 c b p None of
                       Inl e \<Rightarrow> Some (s\<lparr> mainpc := Raised e,
                                          list_calls := list_calls s @ [None] \<rparr>)
                     | Inr r \<Rightarrow> Some (s\<lparr> mainpc := Spawning 0, resp := Some r,
                                          list_calls := list_calls s @ [None] \<rparr>))))
      | Spawning x \<Rightarrow>
          (if x < 8 then
             Some (s\<lparr> mainpc := Spawning (x + 1), workers := workers s @ [Waiting] \<rparr>)
           else
             (case resp s of
                None \<Rightarrow> Some (s\<lparr> mainpc := Raised (KeyError ''Contents'') \<rparr>)
              | Some r \<Rightarrow>
                  (case Contents r of
                     None \<Rightarrow> Some (s\<lparr> mainpc := Raised (KeyError ''Contents'') \<rparr>)
                   | Some ks \<Rightarrow> Some (s\<lparr> mainpc := Enqueueing, pending := ks \<rparr>))))
      | Enqueueing \<Rightarrow>
          (case pending s of
             [] \<Rightarrow> Some (s\<lparr> mainpc := Joining \<rparr>)
           | k # ks \<Rightarrow>
               (case ev ''Bucket'' of
                  None \<Rightarrow> Some (s\<lparr> mainpc := Raised (KeyError ''Bucket'') \<rparr>)
                | Some b \<Rightarrow> Some (put (b, k) (s\<lparr> pending := ks \<rparr>))))
      | Joining \<Rightarrow>
          (if unfinished_tasks s = 0 then Some (s\<lparr> mainpc := Returned PNone \<rparr>) else None)
      | Returned v \<Rightarrow> None
      | Raised e \<Rightarrow> None)"

subsection \<open>Runs\<close>

text \<open>
  The threads interleave: a schedule names the thread that takes each step, and a
  schedule that names a blocked or ended thread is not a run (\<open>None\<close>).
\<close>

datatype thread = Main | Worker nat

fun step :: "s3client \<Rightarrow> event \<Rightarrow> thread \<Rightarrow> state \<Rightarrow> state option" where
  "step c ev Main s = handler_step c ev s"
| "step c ev (Worker i) s = DeleteWorker_run_step c i s"

fun exec :: "s3client \<Rightarrow> event \<Rightarrow> thread list \<Rightarrow> state \<Rightarrow> state option" where
  "exec c ev [] s = Some s"
| "exec c ev (t # ts) s =
     (case step c ev t s of None \<Rightarrow> None | Some s' \<Rightarrow> exec c ev ts s')"

subsection \<open>Invariants of a run\<close>

text \<open>The task a worker holds between \<open>get\<close> and \<open>task_done\<close>.\<close>

fun held1 :: "worker \<Rightarrow> task list" where
  "held1 Waiting = []"
| "held1 (Claimed t) = [t]"
| "held1 (Deleted t) = [t]"
| "held1 (Failed t e) = [t]"
| "held1 (Dead e) = []"

text \<open>The tasks held by the workers, each with the index of its worker
  (\<open>n\<close> is the index of the first worker of the list).\<close>

fun holding :: "nat \<Rightarrow> worker list \<Rightarrow> (nat \<times> task) list" where
  "holding n [] = []"
| "holding n (w # ws) = map (Pair n) (held1 w) @ holding (Suc n) ws"

definition acked :: "state \<Rightarrow> (nat \<times> task) list" where
  "acked s = map (\<lambda>d. (fst d, fst (snd d))) (dones s)"

text \<open>
  The queue's counter counts the tasks queued or held; tasks are got in the order they
  were put; a task got is held by the worker that got it or has been acknowledged by it.
\<close>

definition inv_queue :: "state \<Rightarrow> bool" where
  "inv_queue s \<longleftrightarrow>
     unfinished_tasks s = length (queue s) + length (holding 0 (workers s)) \<and>
     puts s = map snd (gets s) @ queue s \<and>
     mset (gets s) = mset (holding 0 (workers s)) + mset (acked s)"

text \<open>Line 29 of the handler: the first page of the listing, with the bucket.\<close>

definition first_page :: "s3client \<Rightarrow> event \<Rightarrow> error + (pyval \<times> response)" where
  "first_page c ev =
     (case ev ''Bucket'' of
        None \<Rightarrow> Inl (KeyError ''Bucket'')
      | Some b \<Rightarrow>
          (case ev ''Prefix'' of
             None \<Rightarrow> Inl (KeyError ''Prefix'')
           | Some p \<Rightarrow>
               (case list_objects_v2 c b p None of Inl e \<Rightarrow> Inl e | Inr r \<Rightarrow> Inr (b, r))))"

text \<open>What the main thread has done at each point of the handler.\<close>

definition inv_main :: "s3client \<Rightarrow> event \<Rightarrow> state \<Rightarrow> bool" where
  "inv_main c ev s \<longleftrightarrow>
     (case mainpc s of
        Listing \<Rightarrow> s = init
      | Spawning x \<Rightarrow>
          (\<exists>b r. first_page c ev = Inr (b, r) \<and> resp s = Some r) \<and>
          x \<le> 8 \<and> length (workers s) = x \<and> puts s = [] \<and> pending s = [] \<and>
          list_calls s = [None]
      | Enqueueing \<Rightarrow>
          (\<exists>b r ks. first_page c ev = Inr (b, r) \<and> Contents r = Some ks \<and>
             map (Pair b) ks = puts s @ map (Pair b) (pending s)) \<and>
          length (workers s) = 8 \<and> list_calls s = [None]
      | Joining \<Rightarrow>
          (\<exists>b r ks. first_page c ev = Inr (b, r) \<and> Contents r = Some ks \<and>
             map (Pair b) ks = puts s) \<and>
          pending s = [] \<and> length (workers s) = 8 \<and> list_calls s = [None]
      | Returned v \<Rightarrow>
          (\<exists>b r ks. first_page c ev = Inr (b, r) \<and> Contents r = Some ks \<and>
             map (Pair b) ks = puts s) \<and>
          v = PNone \<and> unfinished_tasks s = 0 \<and>
          pending s = [] \<and> length (workers s) = 8 \<and> list_calls s = [None]
      | Raised e \<Rightarrow>
          puts s = [] \<and>
          (first_page c ev = Inl e \<and> workers s = [] \<and>
             (list_calls s = [] \<or> list_calls s = [None]) \<or>
           (\<exists>b r. first_page c ev = Inr (b, r) \<and> Contents r = None) \<and>
             e = KeyError ''Contents'' \<and> length (workers s) = 8 \<and> list_calls s = [None]))"

text \<open>
  A worker past \<open>delete_object\<close> remembers how the call ended, and the log of
  \<open>task_done\<close> calls records it.
\<close>

fun outcome_ok :: "s3client \<Rightarrow> worker \<Rightarrow> bool" where
  "outcome_ok c (Deleted t) = (delete_object c (fst t) (snd t) = None)"
| "outcome_ok c (Failed t e) = (delete_object c (fst t) (snd t) = Some e)"
| "outcome_ok c w = True"

definition inv_outcome :: "s3client \<Rightarrow> state \<Rightarrow> bool" where
  "inv_outcome c s \<longleftrightarrow>
     list_all (outcome_ok c) (workers s) \<and>
     list_all (\<lambda>d. snd (snd d) = (delete_object c (fst (fst (snd d))) (snd (fst (snd d))) = None))
       (dones s)"

fun alive :: "worker \<Rightarrow> bool" where
  "alive (Dead e) = False"
| "alive w = True"

text \<open>
  The counts of a run, read off its log: the tasks put, and the calls of \<open>task_done\<close>
  after a \<open>delete_object\<close> that returned and after one that raised.
\<close>

definition submitted :: "state \<Rightarrow> nat" where
  "submitted s = length (puts s)"

definition succeeded :: "state \<Rightarrow> nat" where
  "succeeded s = length (filter (\<lambda>d. snd (snd d)) (dones s))"

definition failed :: "state \<Rightarrow> nat" where
  "failed s = length (filter (\<lambda>d. \<not> snd (snd d)) (dones s))"

section \<open>ebs-backup-worker/ebs-backup-worker.py\<close>

subsection \<open>The EC2 client\<close>





subsection \<open>cleanup\_snapshots\<close>







section \<open>boto3-security-group-audit/sg-audit.py\<close>

subsection \<open>The services\<close>







subsection \<open>get\_security\_group\_list and find\_orphans\<close>












subsection \<open>remove\_orphans and main\<close>





section \<open>Examples\<close>

text \<open>
  Concrete events, clients, schedules and accounts on which the theorems below are run.
  For the bulk deletion: an event; \<open>n\<close> distinct keys;
  a listing service that answers every call with one page, one that serves a list of
  pages through continuation tokens (the token of page \<open>j\<close> is \<open>j\<close> characters long),
  a client on which every \<open>delete_object\<close> raises, the spec's Scenario A (25 objects on
  pages of 10, 10 and 5, every delete succeeds), and the schedule in which the main
  thread puts \<open>n\<close> tasks and worker 0 processes them all before \<open>join\<close> returns.
\<close>

definition ev0 :: event where
  "ev0 = [''Bucket'' \<mapsto> PStr ''b'', ''Prefix'' \<mapsto> PStr ''p'']"

definition object_keys :: "nat \<Rightarrow> string list" where
  "object_keys n = map (\<lambda>i. replicate (Suc i) (CHR ''k'')) [0..<n]"

definition single_page :: "string list \<Rightarrow> pyval \<Rightarrow> pyval \<Rightarrow> string option \<Rightarrow> error + response" where
  "single_page ks b p tok =
     Inr \<lparr> Contents = Some ks, IsTruncated = False, NextContinuationToken = None \<rparr>"

definition paged :: "string list list \<Rightarrow> pyval \<Rightarrow> pyval \<Rightarrow> string option \<Rightarrow> error + response" where
  "paged pages b p tok =
     (let j = (case tok of None \<Rightarrow> 0 | Some t \<Rightarrow> length t) in
      if j < length pages then
        Inr \<lparr> Contents = Some (pages ! j), IsTruncated = (j + 1 < length pages),
              NextContinuationToken =
                (if j + 1 < length pages then Some (replicate (j + 1) (CHR ''t'')) else None) \<rparr>
      else Inl (ClientError ''InvalidArgument''))"

definition failing_client :: "nat \<Rightarrow> s3client" where
  "failing_client n =
     \<lparr> list_objects_v2 = single_page (object_keys n),
       delete_object = (\<lambda>b k. Some (ClientError ''AccessDenied'')) \<rparr>"

definition scenario_A :: s3client where
  "scenario_A =
     \<lparr> list_objects_v2 =
         paged [take 10 (object_keys 25), take 10 (drop 10 (object_keys 25)),
                drop 20 (object_keys 25)],
       delete_object = (\<lambda>b k. None) \<rparr>"

definition run_to_return :: "nat \<Rightarrow> thread list" where
  "run_to_return n =
     replicate 10 Main @ replicate n Main @ [Main] @
     concat (replicate n [Worker 0, Worker 0, Worker 0]) @ [Main]"

text \<open>
  The schedule in which the main thread puts nine tasks and enters \<open>join\<close>, and then
  each of the eight workers gets a task, calls \<open>delete_object\<close> and runs its \<open>finally\<close>
  clause.
\<close>

definition strand_schedule :: "thread list" where
  "strand_schedule =
     replicate 10 Main @ replicate 9 Main @ [Main] @
     concat (map (\<lambda>i. [Worker i, Worker i, Worker i]) [0..<8])"

text \<open>
  Three objects, the second of which fails to delete, and a schedule in which three
  workers process them in an interleaved order.
\<close>

definition mixed_client :: s3client where
  "mixed_client =
     \<lparr> list_objects_v2 = single_page (object_keys 3),
       delete_object = (\<lambda>b k. if k = ''kk'' then Some (ClientError ''AccessDenied'') else None) \<rparr>"

definition mixed_schedule :: "thread list" where
  "mixed_schedule =
     replicate 14 Main @
     [Worker 0, Worker 1, Worker 0, Worker 1, Worker 1, Worker 0, Worker 2, Worker 2, Worker 2,
      Main]"

text \<open>
  The event with a \<open>poolSize\<close> of 4, a client whose listing call raises, and a client
  whose listing service raises on every call but the first (its first response is
  truncated).
\<close>

definition ev_pool4 :: event where
  "ev_pool4 = ev0(''poolSize'' \<mapsto> PInt 4)"

definition listing_down :: s3client where
  "listing_down =
     \<lparr> list_objects_v2 = (\<lambda>b p tok. Inl (ClientError ''ServiceUnavailable'')),
       delete_object = (\<lambda>b k. None) \<rparr>"

definition second_page_down :: s3client where
  "second_page_down =
     \<lparr> list_objects_v2 =
         (\<lambda>b p tok. case tok of
             None \<Rightarrow> Inr \<lparr> Contents = Some (object_keys 2), IsTruncated = True,
                           NextContinuationToken = Some ''t'' \<rparr>
           | Some t \<Rightarrow> Inl (ClientError ''ServiceUnavailable'')),
       delete_object = (\<lambda>b k. None) \<rparr>"








text \<open>The equations that evaluate the examples.\<close>

lemmas run_defs = ev0_def object_keys_def single_page_def paged_def failing_client_def
  scenario_A_def run_to_return_def init_def handler_step_def DeleteWorker_run_step_def put_def
  task_done_def numeral_eq_Suc upt_rec



section \<open>Lemmas about the bulk deletion pipeline\<close>

subsection \<open>Preservation of the invariants\<close>

lemma holding_append_Waiting: "holding n (ws @ [Waiting]) = holding n ws"
  by (induction ws arbitrary: n) auto

lemma holding_update:
  "i < length ws \<Longrightarrow>
   mset (holding n (ws[i := w])) + mset (map (Pair (n + i)) (held1 (ws ! i))) =
   mset (holding n ws) + mset (map (Pair (n + i)) (held1 w))"
proof (induction ws arbitrary: n i)
  case Nil
  then show ?case by simp
next
  case (Cons a ws)
  show ?case
  proof (cases i)
    case 0
    then show ?thesis by simp
  next
    case (Suc j)
    with Cons.prems have "j < length ws" by simp
    from Cons.IH[OF this, of "Suc n"] Suc show ?thesis by (simp add: ac_simps)
  qed
qed

lemma holding_update0:
  "i < length ws \<Longrightarrow>
   mset (holding 0 (ws[i := w])) + mset (map (Pair i) (held1 (ws ! i))) =
   mset (holding 0 ws) + mset (map (Pair i) (held1 w))"
  using holding_update[of i ws 0 w] by simp

lemma holding_update_length:
  "i < length ws \<Longrightarrow>
   length (holding 0 (ws[i := w])) + length (held1 (ws ! i)) =
   length (holding 0 ws) + length (held1 w)"
  using arg_cong[OF holding_update0[of i ws w], of size] by simp

lemma inv_queue_init: "inv_queue init"
  by (simp add: inv_queue_def init_def acked_def)

lemma inv_queue_DeleteWorker_run_step:
  assumes "inv_queue s" and "DeleteWorker_run_step c i s = Some s'"
  shows "inv_queue s'"
proof -
  from assms(2) have i: "i < length (workers s)"
    by (auto simp: DeleteWorker_run_step_def split: if_splits)
  note L = holding_update_length[OF i] and M = holding_update0[OF i]
  show ?thesis
  proof (cases "workers s ! i")
    case Waiting
    with assms i L[of "Claimed _"] M[of "Claimed _"] show ?thesis
      by (auto simp: DeleteWorker_run_step_def inv_queue_def acked_def split: list.splits)
  next
    case (Claimed t)
    with assms i L[of "Deleted t"] M[of "Deleted t"] L[of "Failed t _"] M[of "Failed t _"] show ?thesis
      by (auto simp: DeleteWorker_run_step_def inv_queue_def acked_def split: option.splits)
  next
    case (Deleted t)
    with assms i L[of "Waiting"] M[of "Waiting"] show ?thesis
      by (auto simp: DeleteWorker_run_step_def inv_queue_def acked_def task_done_def split: if_splits)
  next
    case (Failed t e)
    with assms i L[of "Dead e"] M[of "Dead e"] show ?thesis
      by (auto simp: DeleteWorker_run_step_def inv_queue_def acked_def task_done_def split: if_splits)
  next
    case (Dead e)
    with assms i show ?thesis by (simp add: DeleteWorker_run_step_def)
  qed
qed

lemma inv_queue_handler_step:
  assumes "inv_queue s" and "handler_step c ev s = Some s'"
  shows "inv_queue s'"
  using assms
  by (cases "mainpc s")
     (auto simp: handler_step_def inv_queue_def acked_def put_def holding_append_Waiting
           split: option.splits sum.splits if_splits list.splits)

lemma inv_queue_step: "inv_queue s \<Longrightarrow> step c ev t s = Some s' \<Longrightarrow> inv_queue s'"
  by (cases t) (auto intro: inv_queue_handler_step inv_queue_DeleteWorker_run_step)

lemma DeleteWorker_run_step_frame:
  assumes "DeleteWorker_run_step c i s = Some s'"
  shows "mainpc s' = mainpc s \<and> resp s' = resp s \<and> pending s' = pending s \<and>
         puts s' = puts s \<and> list_calls s' = list_calls s \<and>
         length (workers s') = length (workers s) \<and> unfinished_tasks s' \<le> unfinished_tasks s"
  using assms
  by (auto simp: DeleteWorker_run_step_def task_done_def
           split: if_splits worker.splits list.splits option.splits)

lemma inv_main_DeleteWorker_run_step:
  assumes "inv_main c ev s" and "DeleteWorker_run_step c i s = Some s'"
  shows "inv_main c ev s'"
proof -
  note F = DeleteWorker_run_step_frame[OF assms(2)]
  show ?thesis
  proof (cases "mainpc s")
    case Listing
    with assms(1) have "s = init" by (simp add: inv_main_def)
    with assms(2) show ?thesis by (simp add: DeleteWorker_run_step_def init_def)
  qed (use assms(1) F in \<open>auto simp: inv_main_def\<close>)
qed

lemma inv_main_init: "inv_main c ev init"
  by (simp add: inv_main_def init_def)

lemma inv_main_handler_step:
  assumes "inv_main c ev s" and "handler_step c ev s = Some s'"
  shows "inv_main c ev s'"
proof (cases "mainpc s")
  case Listing
  with assms show ?thesis
    by (auto simp: handler_step_def inv_main_def init_def first_page_def
             split: option.splits sum.splits)
next
  case (Spawning x)
  with assms show ?thesis
    by (auto simp: handler_step_def inv_main_def split: option.splits if_splits)
next
  case Enqueueing
  with assms show ?thesis
    by (auto simp: handler_step_def inv_main_def put_def first_page_def
             split: option.splits list.splits sum.splits)
next
  case Joining
  with assms show ?thesis
    by (auto simp: handler_step_def inv_main_def split: if_splits)
next
  case (Returned v)
  with assms show ?thesis by (simp add: handler_step_def)
next
  case (Raised e)
  with assms show ?thesis by (simp add: handler_step_def)
qed

lemma inv_handler_step: "inv_main c ev s \<Longrightarrow> step c ev t s = Some s' \<Longrightarrow> inv_main c ev s'"
  by (cases t) (auto intro: inv_main_handler_step inv_main_DeleteWorker_run_step)

lemma exec_invs:
  "inv_queue s \<Longrightarrow> inv_main c ev s \<Longrightarrow> exec c ev sched s = Some s' \<Longrightarrow>
   inv_queue s' \<and> inv_main c ev s'"
proof (induction sched arbitrary: s)
  case Nil
  then show ?case by simp
next
  case (Cons t ts)
  from Cons.prems(3) obtain s1 where s1: "step c ev t s = Some s1" "exec c ev ts s1 = Some s'"
    by (auto split: option.splits)
  from Cons.IH[OF inv_queue_step[OF Cons.prems(1) s1(1)] inv_handler_step[OF Cons.prems(2) s1(1)] s1(2)]
  show ?case .
qed

lemma run_invs:
  "exec c ev sched init = Some s \<Longrightarrow> inv_queue s \<and> inv_main c ev s"
  using exec_invs[OF inv_queue_init inv_main_init] .

lemma exec_append:
  "exec c ev (xs @ ys) s = (case exec c ev xs s of None \<Rightarrow> None | Some s' \<Rightarrow> exec c ev ys s')"
  by (induction xs arbitrary: s) (auto split: option.splits)

lemma inv_outcome_init: "inv_outcome c init"
  by (simp add: inv_outcome_def init_def)

lemma list_all_update: "list_all P xs \<Longrightarrow> P x \<Longrightarrow> list_all P (xs[i := x])"
  by (induction xs arbitrary: i) (auto split: nat.splits)

lemma inv_outcome_DeleteWorker_run_step:
  assumes "inv_outcome c s" and "DeleteWorker_run_step c i s = Some s'"
  shows "inv_outcome c s'"
proof -
  from assms(2) have i: "i < length (workers s)"
    by (auto simp: DeleteWorker_run_step_def split: if_splits)
  with assms(1) have ok: "outcome_ok c (workers s ! i)"
    by (simp add: inv_outcome_def list_all_length)
  show ?thesis
  proof (cases "workers s ! i")
    case (Dead e)
    with assms i show ?thesis by (simp add: DeleteWorker_run_step_def)
  qed (use assms i ok in \<open>auto simp: DeleteWorker_run_step_def inv_outcome_def task_done_def
         intro!: list_all_update split: list.splits option.splits if_splits\<close>)
qed

lemma inv_outcome_handler_step:
  assumes "inv_outcome c s" and "handler_step c ev s = Some s'"
  shows "inv_outcome c s'"
  using assms
  by (cases "mainpc s")
     (auto simp: handler_step_def inv_outcome_def put_def
           split: option.splits sum.splits if_splits list.splits)

lemma inv_outcome_step: "inv_outcome c s \<Longrightarrow> step c ev t s = Some s' \<Longrightarrow> inv_outcome c s'"
  by (cases t) (auto intro: inv_outcome_handler_step inv_outcome_DeleteWorker_run_step)

lemma exec_inv_outcome:
  "inv_outcome c s \<Longrightarrow> exec c ev sched s = Some s' \<Longrightarrow> inv_outcome c s'"
  by (induction sched arbitrary: s) (auto split: option.splits dest: inv_outcome_step)

lemma run_inv_outcome: "exec c ev sched init = Some s \<Longrightarrow> inv_outcome c s"
  using exec_inv_outcome[OF inv_outcome_init] .

subsection \<open>Consequences of the invariants\<close>

lemma held_le_unfinished:
  assumes "inv_queue s" "i < length (workers s)"
  shows "length (held1 (workers s ! i)) \<le> unfinished_tasks s"
proof -
  have "length (holding 0 ((workers s)[i := Waiting])) + length (held1 (workers s ! i)) =
        length (holding 0 (workers s))"
    using holding_update_length[OF assms(2), of Waiting] by simp
  with assms(1) show ?thesis by (simp add: inv_queue_def)
qed

lemma finished_all_acked:
  assumes "inv_queue s" "unfinished_tasks s = 0"
  shows "queue s = [] \<and> holding 0 (workers s) = [] \<and> map snd (gets s) = puts s \<and>
         mset (acked s) = mset (gets s)"
  using assms by (simp add: inv_queue_def)

lemma acked_sub_gets: "inv_queue s \<Longrightarrow> mset (acked s) \<subseteq># mset (gets s)"
  by (simp add: inv_queue_def)

lemma ack_enabled:
  assumes "inv_queue s" "i < length (workers s)"
    "workers s ! i = Deleted t \<or> workers s ! i = Failed t e"
  shows "\<exists>s'. DeleteWorker_run_step c i s = Some s' \<and> acked s' = acked s @ [(i, t)] \<and>
              unfinished_tasks s' + 1 = unfinished_tasks s"
  using assms held_le_unfinished[OF assms(1,2)]
  by (auto simp: DeleteWorker_run_step_def task_done_def acked_def)

lemma counts_sum: "succeeded s + failed s = length (dones s)"
  by (simp add: succeeded_def failed_def sum_length_filter_compl)

lemma length_acked: "length (acked s) = length (dones s)"
  by (simp add: acked_def)

lemma returned_counts:
  assumes "inv_queue s" "unfinished_tasks s = 0"
  shows "succeeded s + failed s = submitted s"
proof -
  from finished_all_acked[OF assms] have "size (mset (acked s)) = size (mset (gets s))"
    and "length (map snd (gets s)) = length (puts s)" by simp_all
  then show ?thesis by (simp add: counts_sum submitted_def length_acked)
qed

lemma inv_main_Returned:
  assumes "inv_main c ev s" "mainpc s = Returned v"
  shows "v = PNone \<and> unfinished_tasks s = 0 \<and> pending s = [] \<and> length (workers s) = 8 \<and>
         list_calls s = [None] \<and>
         (\<exists>b r ks. first_page c ev = Inr (b, r) \<and> Contents r = Some ks \<and> puts s = map (Pair b) ks)"
  using assms by (auto simp: inv_main_def)

lemma inv_main_list_calls: "inv_main c ev s \<Longrightarrow> list_calls s = [] \<or> list_calls s = [None]"
  by (cases "mainpc s") (auto simp: inv_main_def init_def)

lemma inv_main_workers: "inv_main c ev s \<Longrightarrow> length (workers s) \<le> 8"
  by (cases "mainpc s") (auto simp: inv_main_def init_def)

lemma inv_main_listed:
  assumes "inv_main c ev s" "mainpc s = Joining \<or> mainpc s = Returned v"
  shows "\<exists>b r ks. first_page c ev = Inr (b, r) \<and> Contents r = Some ks \<and> puts s = map (Pair b) ks"
  using assms by (auto simp: inv_main_def)

lemma inv_main_pool:
  assumes "inv_main c ev s" "mainpc s = Enqueueing \<or> mainpc s = Joining \<or> mainpc s = Returned v"
  shows "length (workers s) = 8"
  using assms by (auto simp: inv_main_def)

lemma inv_main_listing_failed:
  assumes "inv_main c ev s" "first_page c ev = Inl e"
  shows "(mainpc s = Listing \<or> mainpc s = Raised e) \<and> workers s = [] \<and> puts s = []"
  using assms by (cases "mainpc s") (auto simp: inv_main_def init_def)

lemma handler_step_event:
  assumes "k \<noteq> ''Bucket''" "k \<noteq> ''Prefix''"
  shows "handler_step c (ev(k := x)) s = handler_step c ev s"
proof -
  have "(ev(k := x)) ''Bucket'' = ev ''Bucket''" and "(ev(k := x)) ''Prefix'' = ev ''Prefix''"
    using assms by auto
  then show ?thesis by (simp only: handler_step_def)
qed

lemma exec_event:
  assumes "k \<noteq> ''Bucket''" "k \<noteq> ''Prefix''"
  shows "exec c (ev(k := x)) sched s = exec c ev sched s"
proof (induction sched arbitrary: s)
  case Nil
  show ?case by simp
next
  case (Cons t ts)
  have "step c (ev(k := x)) t s = step c ev t s"
    by (cases t) (simp_all only: step.simps handler_step_event[OF assms])
  with Cons.IH show ?case
    by (cases "step c ev t s") (simp_all only: exec.simps option.case)
qed

lemma all_ok_no_failed:
  assumes "inv_outcome c s" "inv_queue s" "puts s = map (Pair b) ks"
    "list_all (\<lambda>k. delete_object c b k = None) ks"
  shows "failed s = 0"
proof -
  have "\<not> (\<not> snd (snd d))" if d: "d \<in> set (dones s)" for d
  proof -
    have "(fst d, fst (snd d)) \<in> set (acked s)" using d by (force simp: acked_def)
    then have "(fst d, fst (snd d)) \<in># mset (gets s)"
      using acked_sub_gets[OF assms(2)] by (metis mset_subset_eqD set_mset_mset)
    then have "fst (snd d) \<in> set (map snd (gets s))" by force
    with assms(2) have "fst (snd d) \<in> set (puts s)" by (simp add: inv_queue_def)
    with assms(3) obtain k where k: "k \<in> set ks" "fst (snd d) = (b, k)" by auto
    with assms(4) have "delete_object c b k = None" by (simp add: list_all_iff)
    with assms(1) d k show ?thesis by (auto simp: inv_outcome_def list_all_iff)
  qed
  then show ?thesis by (simp add: failed_def filter_empty_conv)
qed


section \<open>Lemmas about cleanup\_snapshots\<close>

subsection \<open>Failures inside the loop\<close>



section \<open>Lemmas about find\_orphans\<close>

subsection \<open>Every call of find\_orphans is a listing call\<close>







section \<open>The properties\<close>

subsection \<open>Per-item fault isolation\<close>




subsection \<open>Acknowledgment uniqueness\<close>

text \<open>
  C2, as amended. At every point of every run the tasks got are the tasks put, in the
  order they were put, up to those still queued (a task is claimed at most once, by one
  worker); the acknowledgments are among the claims, each by the worker that claimed
  the task (a task is acknowledged at most once); a worker whose \<open>delete_object\<close> has
  returned or raised can take its \<open>task_done\<close> step, which acknowledges the task it
  holds; and once \<open>handler\<close> has returned, every task put has been claimed and
  acknowledged exactly once. That every task put is eventually claimed is not
  guaranteed.
\<close>

theorem claimed_and_acknowledged_at_most_once:
  assumes "exec c ev sched init = Some s"
  shows "puts s = map snd (gets s) @ queue s \<and>
         mset (acked s) \<subseteq># mset (gets s) \<and>
         (\<forall>i t e. i < length (workers s) \<and>
              (workers s ! i = Deleted t \<or> workers s ! i = Failed t e) \<longrightarrow>
              (\<exists>s'. DeleteWorker_run_step c i s = Some s' \<and> acked s' = acked s @ [(i, t)])) \<and>
         (\<forall>v. mainpc s = Returned v \<longrightarrow>
              map snd (gets s) = puts s \<and> mset (acked s) = mset (gets s))"
proof -
  from run_invs[OF assms] have q: "inv_queue s" and m: "inv_main c ev s" by simp_all
  have 1: "puts s = map snd (gets s) @ queue s" using q by (simp add: inv_queue_def)
  have 2: "mset (acked s) \<subseteq># mset (gets s)" by (rule acked_sub_gets[OF q])
  have 3: "\<exists>s'. DeleteWorker_run_step c i s = Some s' \<and> acked s' = acked s @ [(i, t)]"
    if "i < length (workers s) \<and> (workers s ! i = Deleted t \<or> workers s ! i = Failed t e)"
    for i t e
    using ack_enabled[OF q, of i t e c] that by blast
  have 4: "map snd (gets s) = puts s \<and> mset (acked s) = mset (gets s)"
    if "mainpc s = Returned v" for v
    using finished_all_acked[OF q] inv_main_Returned[OF m that] by simp
  from 1 2 3 4 show ?thesis by blast
qed

text \<open>
  The theorem at a run over one object, whose delete raises: at the point where
  worker 0 holds the task after the failed delete, and at the end of the run, when
  worker 0 has acknowledged the task and \<open>handler\<close> has returned.
\<close>

theorem claimed_and_acknowledged_at_most_once_witness:
  "\<exists>s1 s. exec (failing_client 1) ev0 (replicate 12 Main @ [Worker 0, Worker 0]) init = Some s1 \<and>
       workers s1 ! 0 = Failed (PStr ''b'', ''k'') (ClientError ''AccessDenied'') \<and>
       (\<exists>s'. DeleteWorker_run_step (failing_client 1) 0 s1 = Some s' \<and>
             acked s' = acked s1 @ [(0, (PStr ''b'', ''k''))]) \<and>
       exec (failing_client 1) ev0 (run_to_return 1) init = Some s \<and>
       mainpc s = Returned PNone \<and>
       puts s = [(PStr ''b'', ''k'')] \<and> gets s = [(0, (PStr ''b'', ''k''))] \<and>
       map snd (gets s) = puts s \<and> mset (acked s) = mset (gets s)"
proof -
  have "\<exists>s1. exec (failing_client 1) ev0 (replicate 12 Main @ [Worker 0, Worker 0]) init = Some s1 \<and>
       0 < length (workers s1) \<and>
       workers s1 ! 0 = Failed (PStr ''b'', ''k'') (ClientError ''AccessDenied'')"
    by (simp add: run_defs)
  then obtain s1 where h1:
    "exec (failing_client 1) ev0 (replicate 12 Main @ [Worker 0, Worker 0]) init = Some s1"
    "0 < length (workers s1)"
    "workers s1 ! 0 = Failed (PStr ''b'', ''k'') (ClientError ''AccessDenied'')"
    by blast
  have "\<exists>s. exec (failing_client 1) ev0 (run_to_return 1) init = Some s \<and>
       mainpc s = Returned PNone \<and>
       puts s = [(PStr ''b'', ''k'')] \<and> gets s = [(0, (PStr ''b'', ''k''))]"
    by (simp add: run_defs)
  then obtain s where h: "exec (failing_client 1) ev0 (run_to_return 1) init = Some s"
    "mainpc s = Returned PNone" "puts s = [(PStr ''b'', ''k'')]"
    "gets s = [(0, (PStr ''b'', ''k''))]"
    by blast
  from claimed_and_acknowledged_at_most_once[OF h1(1)] h1(2,3)
  have a: "\<exists>s'. DeleteWorker_run_step (failing_client 1) 0 s1 = Some s' \<and>
             acked s' = acked s1 @ [(0, (PStr ''b'', ''k''))]" by blast
  from claimed_and_acknowledged_at_most_once[OF h(1)] h(2)
  have "map snd (gets s) = puts s \<and> mset (acked s) = mset (gets s)" by blast
  with h h1 a show ?thesis by blast
qed

text \<open>
  C2 as stated fails ("never zero times"): nine objects, every delete raises. The main
  thread puts the nine tasks and enters \<open>join\<close>; each of the eight workers claims one
  task, acknowledges it and dies. The ninth task is still queued, claimed and
  acknowledged by no one, and no thread can take a step: the main thread is blocked in
  \<open>join\<close> and every worker has ended.
\<close>

theorem task_stranded_when_all_workers_died:
  "map_option
     (\<lambda>s. (mainpc s, queue s, length (puts s), length (gets s), length (acked s),
           map alive (workers s), handler_step (failing_client 9) ev0 s,
           map (\<lambda>i. DeleteWorker_run_step (failing_client 9) i s) [0..<8]))
     (exec (failing_client 9) ev0 strand_schedule init)
   = Some (Joining, [(PStr ''b'', ''kkkkkkkkk'')], 9, 8, 8,
           [False, False, False, False, False, False, False, False], None,
           [None, None, None, None, None, None, None, None])"
  by code_simp

subsection \<open>No premature completion\<close>

text \<open>
  C3. In every run, once \<open>queue.join()\<close> has returned (the handler is at \<open>Returned\<close>),
  the enumeration loop has finished (nothing is pending and the tasks put are those of
  the whole listing response), no task is queued or held by a worker, and the tasks
  acknowledged are exactly the tasks put. The statement is about every interleaving,
  so it covers those in which the queue was empty while the main thread was still
  putting tasks.
\<close>

theorem join_returns_after_all_acknowledged:
  assumes "exec c ev sched init = Some s" and "mainpc s = Returned v"
  shows "pending s = [] \<and>
         (\<exists>b r ks. first_page c ev = Inr (b, r) \<and> Contents r = Some ks \<and>
                    puts s = map (Pair b) ks) \<and>
         queue s = [] \<and> holding 0 (workers s) = [] \<and>
         mset (map snd (acked s)) = mset (puts s)"
proof -
  from run_invs[OF assms(1)] have q: "inv_queue s" and m: "inv_main c ev s" by simp_all
  note R = inv_main_Returned[OF m assms(2)]
  from finished_all_acked[OF q] R
  have F: "queue s = []" "holding 0 (workers s) = []" "map snd (gets s) = puts s"
    "mset (acked s) = mset (gets s)" by simp_all
  from F(4) have "mset (map snd (acked s)) = mset (map snd (gets s))"
    by (metis mset_map)
  with F R show ?thesis by simp
qed

text \<open>The theorem at a complete run of Scenario A.\<close>

theorem join_returns_after_all_acknowledged_witness:
  "\<exists>s. exec scenario_A ev0 (run_to_return 10) init = Some s \<and>
       mainpc s = Returned PNone \<and> pending s = [] \<and> queue s = [] \<and>
       holding 0 (workers s) = [] \<and> mset (map snd (acked s)) = mset (puts s)"
proof -
  have "\<exists>s. exec scenario_A ev0 (run_to_return 10) init = Some s \<and> mainpc s = Returned PNone"
    by (simp add: run_defs)
  then obtain s where h: "exec scenario_A ev0 (run_to_return 10) init = Some s"
    "mainpc s = Returned PNone" by blast
  from join_returns_after_all_acknowledged[OF h] h show ?thesis by blast
qed

subsection \<open>Accounting conservation\<close>

text \<open>
  C4. The handler keeps no counters; the counts are those of the run's events:
  \<open>submitted\<close> the tasks put, \<open>succeeded\<close> and \<open>failed\<close> the acknowledgments after a
  delete that returned and after one that raised. In every run, once the handler has
  returned, \<open>succeeded + failed = submitted\<close>.
\<close>

theorem accounting_conservation:
  assumes "exec c ev sched init = Some s" and "mainpc s = Returned v"
  shows "succeeded s + failed s = submitted s"
proof -
  from run_invs[OF assms(1)] have q: "inv_queue s" and m: "inv_main c ev s" by simp_all
  from inv_main_Returned[OF m assms(2)] have "unfinished_tasks s = 0" by simp
  then show ?thesis by (rule returned_counts[OF q])
qed

text \<open>
  The theorem at a complete run over three objects, the second of which fails to
  delete, processed by three workers in an interleaved order.
\<close>

theorem accounting_conservation_witness:
  "\<exists>s. exec mixed_client ev0 mixed_schedule init = Some s \<and>
       mainpc s = Returned PNone \<and> submitted s = 3 \<and> succeeded s = 2 \<and> failed s = 1 \<and>
       succeeded s + failed s = submitted s"
proof -
  have "\<exists>s. exec mixed_client ev0 mixed_schedule init = Some s \<and>
       mainpc s = Returned PNone \<and> submitted s = 3 \<and> succeeded s = 2 \<and> failed s = 1"
    by (simp add: run_defs mixed_client_def mixed_schedule_def submitted_def succeeded_def
          failed_def)
  then obtain s where h: "exec mixed_client ev0 mixed_schedule init = Some s"
    "mainpc s = Returned PNone" "submitted s = 3" "succeeded s = 2" "failed s = 1" by blast
  from accounting_conservation[OF h(1,2)] h show ?thesis by blast
qed

subsection \<open>Pagination\<close>

text \<open>
  C5, as amended. The handler makes one listing call, without a continuation token,
  and never follows the token of the response: in every run the log of listing calls
  is empty or that single call, and once the enqueue loop is over the tasks put are
  exactly the keys of the \<open>Contents\<close> of that first response, in its order, each once.
\<close>

theorem handler_lists_first_page_only:
  assumes "exec c ev sched init = Some s"
  shows "(list_calls s = [] \<or> list_calls s = [None]) \<and>
         (\<forall>v. mainpc s = Joining \<or> mainpc s = Returned v \<longrightarrow>
            (\<exists>b r ks. first_page c ev = Inr (b, r) \<and> Contents r = Some ks \<and>
                       puts s = map (Pair b) ks))"
proof -
  from run_invs[OF assms] have m: "inv_main c ev s" by simp
  from inv_main_list_calls[OF m] inv_main_listed[OF m] show ?thesis by blast
qed

text \<open>The theorem at a complete run of Scenario A.\<close>

theorem handler_lists_first_page_only_witness:
  "\<exists>s. exec scenario_A ev0 (run_to_return 10) init = Some s \<and>
       mainpc s = Returned PNone \<and> list_calls s = [None] \<and>
       (\<exists>b r ks. first_page scenario_A ev0 = Inr (b, r) \<and> Contents r = Some ks \<and>
                  puts s = map (Pair b) ks)"
proof -
  have "\<exists>s. exec scenario_A ev0 (run_to_return 10) init = Some s \<and>
       mainpc s = Returned PNone \<and> list_calls s = [None]"
    by (simp add: run_defs)
  then obtain s where h: "exec scenario_A ev0 (run_to_return 10) init = Some s"
    "mainpc s = Returned PNone" "list_calls s = [None]" by blast
  from handler_lists_first_page_only[OF h(1)] h show ?thesis by blast
qed

text \<open>
  C5 as stated fails: on the listing service of 25 distinct keys in pages of 10, 10
  and 5, whose first response carries a continuation token, a complete run makes one
  listing call and puts the 10 keys of the first page, not 25.
\<close>

theorem second_and_third_page_never_listed:
  "map_option (\<lambda>s. (mainpc s, list_calls s, map snd (puts s), length (puts s)))
     (exec scenario_A ev0 (run_to_return 10) init)
   = Some (Returned PNone, [None], take 10 (object_keys 25), 10) \<and>
   map_option NextContinuationToken
     (case list_objects_v2 scenario_A (PStr ''b'') (PStr ''p'') None of
        Inl e \<Rightarrow> None | Inr r \<Rightarrow> Some r) = Some (Some ''t'') \<and>
   length (object_keys 25) = 25 \<and> distinct (object_keys 25)"
  by code_simp

subsection \<open>The value the handler returns\<close>

text \<open>
  C6, as amended. The handler has no \<open>return\<close> statement and builds no result: in
  every run that completes it returns \<open>None\<close>, eight workers have been started, and
  the events of the run count as follows: the tasks submitted are the keys of the first
  page of the listing, each is acknowledged after a delete that returned or raised, and
  when every delete of those keys returns, all are acknowledged as succeeded and none
  as failed.
\<close>

theorem handler_returns_None:
  assumes "exec c ev sched init = Some s" and "mainpc s = Returned v"
  shows "v = PNone \<and> length (workers s) = 8 \<and>
         (\<exists>b r ks. first_page c ev = Inr (b, r) \<and> Contents r = Some ks \<and>
            submitted s = length ks \<and> succeeded s + failed s = length ks \<and>
            (list_all (\<lambda>k. delete_object c b k = None) ks \<longrightarrow>
               succeeded s = length ks \<and> failed s = 0))"
proof -
  from run_invs[OF assms(1)] have q: "inv_queue s" and m: "inv_main c ev s" by simp_all
  note o = run_inv_outcome[OF assms(1)]
  from inv_main_Returned[OF m assms(2)] obtain b r ks where
    R: "v = PNone" "unfinished_tasks s = 0" "length (workers s) = 8"
       "first_page c ev = Inr (b, r)" "Contents r = Some ks" "puts s = map (Pair b) ks"
    by blast
  have sub: "submitted s = length ks" using R(6) by (simp add: submitted_def)
  have sum: "succeeded s + failed s = length ks"
    using returned_counts[OF q R(2)] sub by simp
  have "succeeded s = length ks \<and> failed s = 0"
    if "list_all (\<lambda>k. delete_object c b k = None) ks"
    using all_ok_no_failed[OF o q R(6) that] sum by simp
  with R sub sum show ?thesis by blast
qed

text \<open>The theorem at a complete run of Scenario A.\<close>

theorem handler_returns_None_witness:
  "\<exists>s. exec scenario_A ev0 (run_to_return 10) init = Some s \<and>
       mainpc s = Returned PNone \<and> length (workers s) = 8 \<and>
       submitted s = 10 \<and> succeeded s = 10 \<and> failed s = 0"
proof -
  have "\<exists>s. exec scenario_A ev0 (run_to_return 10) init = Some s \<and>
       mainpc s = Returned PNone \<and> submitted s = 10 \<and> succeeded s = 10 \<and> failed s = 0"
    by (simp add: run_defs submitted_def succeeded_def failed_def)
  then obtain s where h: "exec scenario_A ev0 (run_to_return 10) init = Some s"
    "mainpc s = Returned PNone" "submitted s = 10" "succeeded s = 10" "failed s = 0" by blast
  from handler_returns_None[OF h(1,2)] h show ?thesis by blast
qed

text \<open>
  C6 as stated fails: in Scenario A with \<open>poolSize\<close> 4 in the event, a complete run
  returns \<open>None\<close>, not the dictionary of the spec, after 10 tasks (not 25) were
  submitted and acknowledged, with 8 workers (not 4).
\<close>

theorem scenario_A_returns_no_result:
  "map_option (\<lambda>s. (mainpc s, submitted s, succeeded s, failed s, length (workers s)))
     (exec scenario_A ev_pool4 (run_to_return 10) init)
   = Some (Returned PNone, 10, 10, 0, 8) \<and>
   PNone \<noteq> PDict [(''submitted'', PInt 25), (''succeeded'', PInt 25), (''failed'', PInt 0),
                    (''failures'', PList [])]"
  by code_simp

subsection \<open>Failure of the listing call\<close>

text \<open>
  C7, as amended. When the handler's listing call raises \<open>e\<close>, the first step of the
  handler raises \<open>e\<close> itself to the caller and the handler takes no further step; this
  is before the queue and the workers exist, so in every run no worker is started,
  nothing is put and nothing is acknowledged, and no value is returned.
\<close>

theorem listing_failure_propagates:
  assumes "ev ''Bucket'' = Some b" and "ev ''Prefix'' = Some p"
    and "list_objects_v2 c b p None = Inl e"
  shows "(\<exists>s1. exec c ev [Main] init = Some s1 \<and> mainpc s1 = Raised e \<and>
               handler_step c ev s1 = None) \<and>
         (\<forall>sched s. exec c ev sched init = Some s \<longrightarrow>
            (mainpc s = Listing \<or> mainpc s = Raised e) \<and>
            workers s = [] \<and> puts s = [] \<and> dones s = [])"
proof -
  have fp: "first_page c ev = Inl e" using assms by (simp add: first_page_def)
  have 1: "\<exists>s1. exec c ev [Main] init = Some s1 \<and> mainpc s1 = Raised e \<and>
               handler_step c ev s1 = None"
    using assms by (simp add: handler_step_def init_def)
  have 2: "(mainpc s = Listing \<or> mainpc s = Raised e) \<and>
            workers s = [] \<and> puts s = [] \<and> dones s = []"
    if run: "exec c ev sched init = Some s" for sched s
  proof -
    from run_invs[OF run] have q: "inv_queue s" and m: "inv_main c ev s" by simp_all
    note L = inv_main_listing_failed[OF m fp]
    from q L have "acked s = []" by (auto simp: inv_queue_def)
    then have "dones s = []" by (simp add: acked_def)
    with L show ?thesis by simp
  qed
  from 1 2 show ?thesis by blast
qed

text \<open>The theorem at a client whose listing call raises \<open>ServiceUnavailable\<close>.\<close>

theorem listing_failure_propagates_witness:
  "ev0 ''Bucket'' = Some (PStr ''b'') \<and> ev0 ''Prefix'' = Some (PStr ''p'') \<and>
   list_objects_v2 listing_down (PStr ''b'') (PStr ''p'') None
     = Inl (ClientError ''ServiceUnavailable'') \<and>
   (\<exists>s1. exec listing_down ev0 [Main] init = Some s1 \<and>
          mainpc s1 = Raised (ClientError ''ServiceUnavailable'') \<and>
          workers s1 = [] \<and> puts s1 = [] \<and> dones s1 = [])"
proof -
  have h: "ev0 ''Bucket'' = Some (PStr ''b'')" "ev0 ''Prefix'' = Some (PStr ''p'')"
    "list_objects_v2 listing_down (PStr ''b'') (PStr ''p'') None
       = Inl (ClientError ''ServiceUnavailable'')"
    by (simp_all add: ev0_def listing_down_def)
  from listing_failure_propagates[OF h] h show ?thesis by blast
qed

text \<open>
  C7 as stated fails. When the listing call fails, the handler ends with the client's
  exception and no result, with no worker started (nothing to shut down). When the
  listing service fails on its second page only, the handler never asks for that page:
  the run completes, returns \<open>None\<close> and reports no error.
\<close>

theorem no_enumeration_error_no_partial_result:
  "map_option (\<lambda>s. (mainpc s, length (workers s), handler_step listing_down ev0 s))
     (exec listing_down ev0 [Main] init)
   = Some (Raised (ClientError ''ServiceUnavailable''), 0, None) \<and>
   list_objects_v2 second_page_down (PStr ''b'') (PStr ''p'') (Some ''t'')
     = Inl (ClientError ''ServiceUnavailable'') \<and>
   map_option (\<lambda>s. (mainpc s, list_calls s, submitted s))
     (exec second_page_down ev0 (run_to_return 2) init)
   = Some (Returned PNone, [None], 2)"
  by code_simp

subsection \<open>Size of the worker pool\<close>

text \<open>
  C8, as amended. The handler starts exactly eight workers, whatever the event says:
  in every run there are at most eight workers, exactly eight from the enqueue loop
  on, and the run is a run of the same schedule to the same state when the event's
  \<open>poolSize\<close> entry is set to any value or removed.
\<close>

theorem pool_is_eight_workers:
  assumes "exec c ev sched init = Some s"
  shows "length (workers s) \<le> 8 \<and>
         (\<forall>v. mainpc s = Enqueueing \<or> mainpc s = Joining \<or> mainpc s = Returned v \<longrightarrow>
              length (workers s) = 8) \<and>
         (\<forall>x. exec c (ev(''poolSize'' := x)) sched init = Some s)"
proof -
  from run_invs[OF assms] have m: "inv_main c ev s" by simp
  have "exec c (ev(''poolSize'' := x)) sched init = Some s" for x
    using exec_event[of "''poolSize''" c ev x sched init] assms by simp
  with inv_main_workers[OF m] inv_main_pool[OF m] show ?thesis by blast
qed

text \<open>The theorem at a complete run of Scenario A, against the event with \<open>poolSize\<close> 4.\<close>

theorem pool_is_eight_workers_witness:
  "\<exists>s. exec scenario_A ev0 (run_to_return 10) init = Some s \<and>
       mainpc s = Returned PNone \<and> length (workers s) = 8 \<and>
       exec scenario_A ev_pool4 (run_to_return 10) init = Some s"
proof -
  have "\<exists>s. exec scenario_A ev0 (run_to_return 10) init = Some s \<and> mainpc s = Returned PNone"
    by (simp add: run_defs)
  then obtain s where h: "exec scenario_A ev0 (run_to_return 10) init = Some s"
    "mainpc s = Returned PNone" by blast
  from pool_is_eight_workers[OF h(1)] h show ?thesis unfolding ev_pool4_def by blast
qed

text \<open>
  C8 as stated fails: with \<open>poolSize\<close> 4 in the event the handler has started eight
  workers when it enters the enqueue loop.
\<close>

theorem pool_size_of_event_ignored:
  "ev_pool4 ''poolSize'' = Some (PInt 4) \<and>
   map_option (\<lambda>s. (mainpc s, length (workers s), map alive (workers s)))
     (exec scenario_A ev_pool4 (replicate 10 Main) init)
   = Some (Enqueueing, 8, [True, True, True, True, True, True, True, True])"
  by code_simp

subsection \<open>Swallowed failures of cleanup\_snapshots\<close>



subsection \<open>The delete action\<close>



end
